theory Spec2Isabelle
  imports Main "HOL-Library.Sublist" "HOL-Library.Char_ord"
begin

section \<open>Text: Python strings and the string methods the gateway uses\<close>

text \<open>
  A text is a list of code points below 256 (Latin-1), one \<^typ>\<open>char\<close> each. On this
  range the tables below are those of CPython: \<^verbatim>\<open>str.lower\<close>, \<^verbatim>\<open>str.isspace\<close>
  (also the class \<^verbatim>\<open>\s\<close> of the module \<^verbatim>\<open>re\<close>), the class \<^verbatim>\<open>\w\<close> and the
  class \<^verbatim>\<open>\d\<close>. Code points from 256 on are outside the model.
\<close>

definition in_range :: "char \<Rightarrow> char \<Rightarrow> char \<Rightarrow> bool" where
  "in_range a b c = (a \<le> c \<and> c \<le> b)"

definition lower :: "char \<Rightarrow> char" where
  "lower c =
     (if in_range CHR ''A'' CHR ''Z'' c \<or> (in_range (CHR 0xC0) (CHR 0xDE) c \<and> c \<noteq> CHR 0xD7)
      then char_of (of_char c + (32::nat)) else c)"

definition str_lower :: "string \<Rightarrow> string" where
  "str_lower s = map lower s"

definition isspace :: "char \<Rightarrow> bool" where
  "isspace c = (in_range (CHR 0x09) (CHR 0x0D) c \<or> in_range (CHR 0x1C) (CHR 0x20) c
                \<or> c = CHR 0x85 \<or> c = CHR 0xA0)"

definition strip :: "string \<Rightarrow> string" where
  "strip s = rev (dropWhile isspace (rev (dropWhile isspace s)))"

definition is_digit :: "char \<Rightarrow> bool" where
  "is_digit c = in_range CHR ''0'' CHR ''9'' c"

definition is_alpha :: "char \<Rightarrow> bool" where
  "is_alpha c = (in_range CHR ''a'' CHR ''z'' c \<or> in_range CHR ''A'' CHR ''Z'' c)"

definition is_word :: "char \<Rightarrow> bool" where
  "is_word c = (is_digit c \<or> is_alpha c \<or> c = CHR ''_''
                \<or> c \<in> set [CHR 0xAA, CHR 0xB2, CHR 0xB3, CHR 0xB5, CHR 0xB9, CHR 0xBA,
                             CHR 0xBC, CHR 0xBD, CHR 0xBE]
                \<or> in_range (CHR 0xC0) (CHR 0xD6) c \<or> in_range (CHR 0xD8) (CHR 0xF6) c
                \<or> in_range (CHR 0xF8) (CHR 0xFF) c)"

text \<open>\<^verbatim>\<open>kw in text\<close>: \<open>kw\<close> occurs in \<open>text\<close> as a contiguous run.\<close>

fun str_in :: "string \<Rightarrow> string \<Rightarrow> bool" where
  "str_in kw [] = (kw = [])"
| "str_in kw (c # cs) = (prefix kw (c # cs) \<or> str_in kw cs)"

definition bs :: char where
  "bs = CHR 0x5C"

text \<open>A Python dictionary from strings to strings, and \<^verbatim>\<open>d.get(k, default)\<close>.\<close>

type_synonym dict = "string \<rightharpoonup> string"

definition dict_get :: "dict \<Rightarrow> string \<Rightarrow> string \<Rightarrow> string" where
  "dict_get d k dflt = (case d k of None \<Rightarrow> dflt | Some v \<Rightarrow> v)"

text \<open>
  The exceptions of the model. \<open>ValueError\<close> carries its message. \<open>TemplateError\<close> stands
  for what \<^verbatim>\<open>Pattern.sub\<close> raises when the replacement string is not a valid template
  (\<^verbatim>\<open>re.error\<close>, or \<^verbatim>\<open>IndexError\<close> for an unknown group name). \<open>KeyError\<close> is a
  missing key in \<^verbatim>\<open>d[k]\<close>.
\<close>

datatype py_error = ValueError string | TemplateError | KeyError string

section \<open>Regular expressions: the fragment of \<^verbatim>\<open>re\<close> the policies compile\<close>

text \<open>
  A compiled pattern is a syntax tree. \<open>Chr P\<close> is one character of the class \<open>P\<close> (a
  literal, a bracket class, \<^verbatim>\<open>\s\<close>, \<^verbatim>\<open>\d\<close>, \<^verbatim>\<open>.\<close>); \<open>Rep P lo hi\<close> is the greedy
  repetition \<^verbatim>\<open>{lo,hi}\<close> of such a class (\<open>hi = None\<close>: unbounded, so \<^verbatim>\<open>+\<close> is
  \<open>Rep P 1 None\<close> and \<^verbatim>\<open>*\<close> is \<open>Rep P 0 None\<close>); \<open>Opt r\<close> is the greedy \<^verbatim>\<open>r?\<close>;
  \<open>WordB\<close> is \<^verbatim>\<open>\b\<close>. Every repetition in the patterns of \<^verbatim>\<open>policies.py\<close> is over
  a single character class.

  A position is the character before the cursor (if any) and the text after it.
  \<open>ends r pos\<close> lists the positions where a match of \<open>r\<close> starting at \<open>pos\<close> can end, in
  the order in which the backtracking matcher of \<^verbatim>\<open>re\<close> tries them; the match it
  reports is the first.
\<close>

datatype regex =
    Eps
  | Chr "char \<Rightarrow> bool"
  | Seq regex regex
  | Alt regex regex
  | Opt regex
  | Rep "char \<Rightarrow> bool" nat "nat option"
  | WordB

type_synonym pos = "char option \<times> string"

fun rep_ends :: "(char \<Rightarrow> bool) \<Rightarrow> nat \<Rightarrow> nat option \<Rightarrow> char option \<Rightarrow> string \<Rightarrow> pos list" where
  "rep_ends P lo hi prev [] = (if lo = 0 then [(prev, [])] else [])"
| "rep_ends P lo hi prev (c # cs) =
     (if P c \<and> hi \<noteq> Some 0
      then rep_ends P (lo - 1) (map_option (\<lambda>h. h - 1) hi) (Some c) cs else [])
     @ (if lo = 0 then [(prev, c # cs)] else [])"

definition at_boundary :: "char option \<Rightarrow> string \<Rightarrow> bool" where
  "at_boundary prev aft =
     ((case prev of None \<Rightarrow> False | Some c \<Rightarrow> is_word c)
      \<noteq> (case aft of [] \<Rightarrow> False | c # _ \<Rightarrow> is_word c))"

fun ends :: "regex \<Rightarrow> pos \<Rightarrow> pos list" where
  "ends Eps st = [st]"
| "ends (Chr P) (prev, aft) =
     (case aft of [] \<Rightarrow> [] | c # cs \<Rightarrow> if P c then [(Some c, cs)] else [])"
| "ends (Seq r1 r2) st = concat (map (ends r2) (ends r1 st))"
| "ends (Alt r1 r2) st = ends r1 st @ ends r2 st"
| "ends (Opt r) st = ends r st @ [st]"
| "ends (Rep P lo hi) (prev, aft) = rep_ends P lo hi prev aft"
| "ends WordB (prev, aft) = (if at_boundary prev aft then [(prev, aft)] else [])"

text \<open>
  \<^verbatim>\<open>Pattern.search\<close>: the leftmost position with a match. The result is the text from
  the start of the match and the position of its end; the policies only test it for
  truth.
\<close>

fun search :: "regex \<Rightarrow> char option \<Rightarrow> string \<Rightarrow> (string \<times> pos) option" where
  "search r prev [] = (case ends r (prev, []) of [] \<Rightarrow> None | e # _ \<Rightarrow> Some ([], e))"
| "search r prev (c # cs) =
     (case ends r (prev, c # cs) of [] \<Rightarrow> search r (Some c) cs | e # _ \<Rightarrow> Some (c # cs, e))"

definition re_search :: "regex \<Rightarrow> string \<Rightarrow> bool" where
  "re_search r text = (search r None text \<noteq> None)"

text \<open>Literal strings, with and without \<^verbatim>\<open>re.I\<close>, and alternatives of several branches.\<close>

definition lit :: "string \<Rightarrow> regex" where
  "lit s = foldr (\<lambda>k r. Seq (Chr (\<lambda>c. c = k)) r) s Eps"

definition lit_i :: "string \<Rightarrow> regex" where
  "lit_i s = foldr (\<lambda>k r. Seq (Chr (\<lambda>c. lower c = lower k)) r) s Eps"

definition seqs :: "regex list \<Rightarrow> regex" where
  "seqs rs = foldr Seq rs Eps"

fun alts :: "regex list \<Rightarrow> regex" where
  "alts [] = Eps"
| "alts [r] = r"
| "alts (r # rs) = Alt r (alts rs)"

subsection \<open>Replacement templates\<close>

text \<open>
  \<^verbatim>\<open>Pattern.sub(repl, text)\<close> compiles the string \<open>repl\<close> as a template before it looks
  at the text (\<^verbatim>\<open>parse_template\<close> of CPython 3.11), for a pattern without capture
  groups, as all patterns substituted here are: a backslash pairs with the next
  character; \<^verbatim>\<open>\g<name>\<close> is valid only when \<open>name\<close> reads as the integer 0 and then
  stands for the whole match; \<^verbatim>\<open>\0\<close> to \<^verbatim>\<open>\377\<close> are octal escapes, any other \<^verbatim>\<open>\digit\<close>
  is a reference to a group that does not exist; \<^verbatim>\<open>\a \b \f \n \r \t \v \\\<close> are
  characters; a backslash before another ASCII letter, or at the end, is an error;
  before anything else it stays as it is.
\<close>

datatype titem = TLit string | TGroup0

fun tokenize :: "string \<Rightarrow> string list option" where
  "tokenize [] = Some []"
| "tokenize [c] = (if c = bs then None else Some [[c]])"
| "tokenize (c # d # cs) =
     (if c = bs then map_option ((#) [c, d]) (tokenize cs)
      else map_option ((#) [c]) (tokenize (d # cs)))"

fun getuntil :: "string list \<Rightarrow> (string \<times> string list) option" where
  "getuntil [] = None"
| "getuntil (t # ts) =
     (if t = ''>'' then Some ([], ts)
      else map_option (\<lambda>(name, rest). (t @ name, rest)) (getuntil ts))"

text \<open>\<^verbatim>\<open>int(name) == 0\<close> for a name that is not an identifier.\<close>

definition zero_digits :: "string \<Rightarrow> bool" where
  "zero_digits ds =
     (ds \<noteq> [] \<and> set ds \<subseteq> {CHR ''0'', CHR ''_''} \<and> hd ds = CHR ''0'' \<and> last ds = CHR ''0''
      \<and> \<not> str_in ''__'' ds)"

definition int_is_zero :: "string \<Rightarrow> bool" where
  "int_is_zero name =
     (case strip name of
        [] \<Rightarrow> False
      | c # cs \<Rightarrow> if c = CHR ''+'' \<or> c = CHR ''-'' then zero_digits cs else zero_digits (c # cs))"

definition is_octdigit :: "string \<Rightarrow> bool" where
  "is_octdigit t = (case t of [c] \<Rightarrow> in_range CHR ''0'' CHR ''7'' c | _ \<Rightarrow> False)"

definition octval :: "string \<Rightarrow> nat" where
  "octval t = (of_char (hd t) :: nat) - 48"

definition ESCAPES :: "char \<Rightarrow> char option" where
  "ESCAPES c =
     map_of [(CHR ''a'', CHR 0x07), (CHR ''b'', CHR 0x08), (CHR ''f'', CHR 0x0C),
             (CHR ''n'', CHR 0x0A), (CHR ''r'', CHR 0x0D), (CHR ''t'', CHR 0x09),
             (CHR ''v'', CHR 0x0B), (bs, bs)] c"

function parse_tokens :: "string list \<Rightarrow> titem list option" where
  "parse_tokens [] = Some []"
| "parse_tokens (t # ts) =
     (case t of
        [c] \<Rightarrow> map_option ((#) (TLit [c])) (parse_tokens ts)
      | [b, c] \<Rightarrow>
          if c = CHR ''g'' then
            (case ts of
               [] \<Rightarrow> None
             | u # us \<Rightarrow>
                 if u \<noteq> ''<'' then None
                 else (case getuntil us of
                         None \<Rightarrow> None
                       | Some (name, rest) \<Rightarrow>
                           if name \<noteq> [] \<and> int_is_zero name
                           then map_option ((#) TGroup0) (parse_tokens rest) else None))
          else if c = CHR ''0'' then
            (case ts of
               [] \<Rightarrow> Some [TLit [CHR 0x00]]
             | u # us \<Rightarrow>
                 if is_octdigit u then
                   (case us of
                      [] \<Rightarrow> Some [TLit [char_of (octval u)]]
                    | v # vs \<Rightarrow>
                        if is_octdigit v
                        then map_option ((#) (TLit [char_of (8 * octval u + octval v)]))
                               (parse_tokens vs)
                        else map_option ((#) (TLit [char_of (octval u)])) (parse_tokens us))
                 else map_option ((#) (TLit [CHR 0x00])) (parse_tokens ts))
          else if is_digit c then
            (case ts of
               u # v # vs \<Rightarrow>
                 if is_octdigit [c] \<and> is_octdigit u \<and> is_octdigit v
                    \<and> 64 * octval [c] + 8 * octval u + octval v \<le> 255
                 then map_option
                        ((#) (TLit [char_of (64 * octval [c] + 8 * octval u + octval v)]))
                        (parse_tokens vs)
                 else None
             | _ \<Rightarrow> None)
          else (case ESCAPES c of
                  Some e \<Rightarrow> map_option ((#) (TLit [e])) (parse_tokens ts)
                | None \<Rightarrow>
                    if is_alpha c then None
                    else map_option ((#) (TLit [b, c])) (parse_tokens ts))
      | _ \<Rightarrow> None)"
  by pat_completeness auto
termination
proof -
  have shorter: "length rest < Suc (length ts)" if "getuntil ts = Some (name, rest)"
    for ts :: "string list" and name rest
    using that by (induction ts arbitrary: name rest) (auto split: if_splits)
  show ?thesis
    by (relation "measure length") (auto dest: shorter)
qed

definition parse_template :: "string \<Rightarrow> py_error + titem list" where
  "parse_template repl =
     (case tokenize repl of
        None \<Rightarrow> Inl TemplateError
      | Some ts \<Rightarrow> (case parse_tokens ts of None \<Rightarrow> Inl TemplateError | Some items \<Rightarrow> Inr items))"

fun expand_template :: "titem list \<Rightarrow> string \<Rightarrow> string" where
  "expand_template [] m = []"
| "expand_template (TLit s # items) m = s @ expand_template items m"
| "expand_template (TGroup0 # items) m = m @ expand_template items m"

subsection \<open>Substitution\<close>

text \<open>
  \<^verbatim>\<open>Pattern.sub\<close> replaces the non-overlapping matches from left to right. After an
  empty match the next match may not be empty at the same place (\<open>must_advance\<close>).
  Text between matches is copied.
\<close>

function sub_loop :: "regex \<Rightarrow> (string \<Rightarrow> string) \<Rightarrow> bool \<Rightarrow> char option \<Rightarrow> string \<Rightarrow> string" where
  "sub_loop r filt must_advance prev aft =
     (case find (\<lambda>(p', aft'). \<not> must_advance \<or> length aft' < length aft) (ends r (prev, aft)) of
        Some (p', aft') \<Rightarrow>
          filt (take (length aft - length aft') aft)
          @ (if length aft' < length aft then sub_loop r filt False p' aft'
             else sub_loop r filt True prev aft)
      | None \<Rightarrow>
          (case aft of [] \<Rightarrow> [] | c # cs \<Rightarrow> c # sub_loop r filt False (Some c) cs))"
  by pat_completeness auto
termination
  by (relation "measure (\<lambda>(r, filt, m, prev, aft). 2 * length aft + (if m then 0 else 1))")
     (auto simp: find_Some_iff)

definition re_sub :: "regex \<Rightarrow> string \<Rightarrow> string \<Rightarrow> py_error + string" where
  "re_sub r repl text =
     (case parse_template repl of
        Inl e \<Rightarrow> Inl e
      | Inr items \<Rightarrow> Inr (sub_loop r (expand_template items) False None text))"

section \<open>The patterns of \<^verbatim>\<open>policies.py\<close>\<close>

text \<open>\<^verbatim>\<open>[a-zA-Z0-9._%+-]+@[a-zA-Z0-9.-]+\.[a-zA-Z]{2,}\<close>\<close>

definition email_local :: "char \<Rightarrow> bool" where
  "email_local c = (is_alpha c \<or> is_digit c \<or> c \<in> set ''._%+-'')"

definition email_domain :: "char \<Rightarrow> bool" where
  "email_domain c = (is_alpha c \<or> is_digit c \<or> c \<in> set ''.-'')"

definition email_regex :: regex where
  "email_regex =
     Seq (Rep email_local 1 None)
       (Seq (Chr (\<lambda>c. c = CHR ''@''))
         (Seq (Rep email_domain 1 None)
           (Seq (Chr (\<lambda>c. c = CHR ''.''))
             (Rep is_alpha 2 None))))"

text \<open>\<^verbatim>\<open>(?:(?:\+?\d{1,3}[-.\s]?)|\(0?\d{3}\)[-.\s]?)?\d{3}[-.\s]?\d{4}(?:[-.\s]?\d{3})?\<close>\<close>

definition phone_sep :: "char \<Rightarrow> bool" where
  "phone_sep c = (c = CHR ''-'' \<or> c = CHR ''.'' \<or> isspace c)"

definition phone_regex :: regex where
  "phone_regex =
     seqs [
       Opt (Alt (seqs [Opt (lit ''+''), Rep is_digit 1 (Some 3), Opt (Chr phone_sep)])
                (seqs [lit ''('', Opt (lit ''0''), Rep is_digit 3 (Some 3), lit '')'',
                       Opt (Chr phone_sep)])),
       Rep is_digit 3 (Some 3),
       Opt (Chr phone_sep),
       Rep is_digit 4 (Some 4),
       Opt (seqs [Opt (Chr phone_sep), Rep is_digit 3 (Some 3)])]"

text \<open>
  \<^verbatim>\<open>rf"https?://{re.escape(dom)}[^\s]*"\<close> with \<^verbatim>\<open>re.I\<close>: the escaped domain is the
  literal text \<open>dom\<close> (here \<open>domain\<close>, as \<open>dom\<close> is taken).
\<close>

definition url_regex :: "string \<Rightarrow> regex" where
  "url_regex domain =
     seqs [lit_i ''http'', Opt (lit_i ''s''), lit_i ''://'', lit_i domain,
           Rep (\<lambda>c. \<not> isspace c) 0 None]"

text \<open>The patterns of the semantic-threat detector, all compiled with \<^verbatim>\<open>re.I\<close>.\<close>

definition creation_verbs :: regex where
  "creation_verbs = alts [lit_i ''make'', lit_i ''build'', lit_i ''create'', lit_i ''manufacture'']"

definition a_the :: regex where
  "a_the = Opt (Alt (lit_i ''a'') (lit_i ''the''))"

definition bomb_word :: regex where
  "bomb_word = seqs [WordB, lit_i ''bomb'', WordB]"

record pattern =
  source :: string
  compiled :: regex

definition block_patterns :: "pattern list" where
  "block_patterns = [
     \<lparr>source = [bs] @ ''b(make|build|create|manufacture)'' @ [bs] @ ''s+(a|the)?'' @ [bs]
                @ ''s*bomb'' @ [bs] @ ''b'',
      compiled = seqs [WordB, creation_verbs, Rep isspace 1 None, a_the, Rep isspace 0 None,
                       lit_i ''bomb'', WordB]\<rparr>,
     \<lparr>source = [bs] @ ''bhow to (make|build|create|manufacture)'' @ [bs] @ ''s+(a|the)?'' @ [bs]
                @ ''s*bomb'' @ [bs] @ ''b'',
      compiled = seqs [WordB, lit_i ''how to '', creation_verbs, Rep isspace 1 None, a_the,
                       Rep isspace 0 None, lit_i ''bomb'', WordB]\<rparr>,
     \<lparr>source = [bs] @ ''bbomb'' @ [bs] @ ''s*recipe'' @ [bs] @ ''b'',
      compiled = seqs [WordB, lit_i ''bomb'', Rep isspace 0 None, lit_i ''recipe'', WordB]\<rparr>,
     \<lparr>source = [bs] @ ''bexplosive'' @ [bs] @ ''s+device'' @ [bs] @ ''b'',
      compiled = seqs [WordB, lit_i ''explosive'', Rep isspace 1 None, lit_i ''device'', WordB]\<rparr>,
     \<lparr>source = [bs] @ ''bpipe'' @ [bs] @ ''s*bomb'' @ [bs] @ ''b'',
      compiled = seqs [WordB, lit_i ''pipe'', Rep isspace 0 None, lit_i ''bomb'', WordB]\<rparr>,
     \<lparr>source = [bs] @ ''bied'' @ [bs] @ ''b'',
      compiled = seqs [WordB, lit_i ''ied'', WordB]\<rparr>,
     \<lparr>source = [bs] @ ''bhow to hack a bank'' @ [bs] @ ''b'',
      compiled = seqs [WordB, lit_i ''how to hack a bank'', WordB]\<rparr>,
     \<lparr>source = [bs] @ ''bhow to (kill|poison)'' @ [bs] @ ''b'',
      compiled = seqs [WordB, lit_i ''how to '', Alt (lit_i ''kill'') (lit_i ''poison''), WordB]\<rparr>]"

definition rewrite_patterns :: "pattern list" where
  "rewrite_patterns = [
     \<lparr>source = [bs] @ ''b(hack|bypass)'' @ [bs] @ ''b.*'' @ [bs]
                @ ''b(firewall|router|wifi|system)'' @ [bs] @ ''b'',
      compiled = seqs [WordB, Alt (lit_i ''hack'') (lit_i ''bypass''), WordB,
                       Rep (\<lambda>c. c \<noteq> CHR 0x0A) 0 None, WordB,
                       alts [lit_i ''firewall'', lit_i ''router'', lit_i ''wifi'', lit_i ''system''],
                       WordB]\<rparr>]"

section \<open>Policies\<close>

text \<open>
  The configuration record of one policy-set entry: the keys the constructors read,
  each absent or present. The keys \<^verbatim>\<open>phone_pattern\<close> and \<^verbatim>\<open>email_pattern\<close> of the
  output sanitiser are taken as absent, so its patterns are the default ones.
\<close>

record policy_config =
  cfg_mask_token :: "string option"
  cfg_keywords :: "string list option"
  cfg_disallowed_domains :: "string list option"

text \<open>
  An instance of one of the four classes of \<^verbatim>\<open>POLICY_MAP\<close>, with the attributes its
  \<^verbatim>\<open>evaluate_prompt\<close> reads: the mask token, the keywords, the disallowed domains.
\<close>

datatype policy =
    PII_Scrubber string
  | Jailbreak_Detector "string list"
  | Semantic_Threat_Detector
  | Output_Sanitizer string "string list"

fun name :: "policy \<Rightarrow> string" where
  "name (PII_Scrubber _) = ''PII_Scrubber''"
| "name (Jailbreak_Detector _) = ''Jailbreak_Detector''"
| "name Semantic_Threat_Detector = ''Semantic_Threat_Detector''"
| "name (Output_Sanitizer _ _) = ''Output_Sanitizer''"

definition PII_Scrubber_init :: "policy_config \<Rightarrow> policy" where
  "PII_Scrubber_init policy_config =
     PII_Scrubber (case cfg_mask_token policy_config of
                     None \<Rightarrow> ''[EMAIL_MASKED]'' | Some t \<Rightarrow> t)"

definition Jailbreak_Detector_init :: "policy_config \<Rightarrow> policy" where
  "Jailbreak_Detector_init policy_config =
     (let defaults = [''ignore previous rules'', ''dan mode'', ''jailbreak'', ''bypass safety'',
                      ''act as if you are not an ai'']
      in Jailbreak_Detector
           (map str_lower (case cfg_keywords policy_config of
                             None \<Rightarrow> defaults | Some kws \<Rightarrow> kws)))"

definition Semantic_Threat_Detector_init :: "policy_config \<Rightarrow> policy" where
  "Semantic_Threat_Detector_init policy_config = Semantic_Threat_Detector"

definition Output_Sanitizer_init :: "policy_config \<Rightarrow> policy" where
  "Output_Sanitizer_init policy_config =
     Output_Sanitizer
       (case cfg_mask_token policy_config of None \<Rightarrow> ''[REDACTED]'' | Some t \<Rightarrow> t)
       (case cfg_disallowed_domains policy_config of
          None \<Rightarrow> [''pastebin.com'', ''anonfiles.com''] | Some ds \<Rightarrow> ds)"

definition POLICY_MAP :: "string \<rightharpoonup> (policy_config \<Rightarrow> policy)" where
  "POLICY_MAP =
     map_of [(''PII_Scrubber'', PII_Scrubber_init),
             (''Jailbreak_Detector'', Jailbreak_Detector_init),
             (''Semantic_Threat_Detector'', Semantic_Threat_Detector_init),
             (''Output_Sanitizer'', Output_Sanitizer_init)]"

subsection \<open>\<^verbatim>\<open>evaluate_prompt\<close> of each class\<close>

definition PII_Scrubber_evaluate_prompt :: "string \<Rightarrow> string \<Rightarrow> py_error + dict" where
  "PII_Scrubber_evaluate_prompt mask_token text =
     (case re_sub email_regex mask_token text of
        Inl e \<Rightarrow> Inl e
      | Inr masked \<Rightarrow>
          if masked \<noteq> text
          then Inr [''status'' \<mapsto> ''MASK'', ''details'' \<mapsto> ''PII (email) masked.'',
                    ''processed_prompt'' \<mapsto> masked]
          else Inr [''status'' \<mapsto> ''PASS'', ''details'' \<mapsto> ''No PII found.''])"

fun first_keyword :: "string list \<Rightarrow> string \<Rightarrow> string option" where
  "first_keyword [] low = None"
| "first_keyword (kw # kws) low = (if str_in kw low then Some kw else first_keyword kws low)"

definition Jailbreak_Detector_evaluate_prompt :: "string list \<Rightarrow> string \<Rightarrow> py_error + dict" where
  "Jailbreak_Detector_evaluate_prompt keywords text =
     (let low = str_lower text
      in case first_keyword keywords low of
           Some kw \<Rightarrow>
             Inr [''status'' \<mapsto> ''BLOCK'',
                  ''details'' \<mapsto> ''Jailbreak detected: '' @ [CHR 0x27] @ kw @ [CHR 0x27]]
         | None \<Rightarrow> Inr [''status'' \<mapsto> ''PASS'', ''details'' \<mapsto> ''No jailbreak detected.''])"

fun first_pattern :: "pattern list \<Rightarrow> string \<Rightarrow> pattern option" where
  "first_pattern [] text = None"
| "first_pattern (pat # pats) text =
     (if re_search (compiled pat) text then Some pat else first_pattern pats text)"

definition rewrite_template :: "string \<Rightarrow> string" where
  "rewrite_template prompt =
     ''This query was rewritten to focus only on defensive cybersecurity. ''
     @ ''Explain best practices without attack steps: '' @ prompt"

text \<open>
  In the details of a rewrite the arrow (U+2192) is outside the code points of the
  model; it is written as the three bytes of its UTF-8 encoding.
\<close>

definition Semantic_Threat_Detector_evaluate_prompt :: "string \<Rightarrow> py_error + dict" where
  "Semantic_Threat_Detector_evaluate_prompt text =
     (if re_search bomb_word text \<and> re_search creation_verbs text
      then Inr [''status'' \<mapsto> ''BLOCK'',
                ''details'' \<mapsto> ''Dangerous bomb-making intent detected.'']
      else case first_pattern block_patterns text of
             Some pat \<Rightarrow>
               Inr [''status'' \<mapsto> ''BLOCK'',
                    ''details'' \<mapsto> ''Semantic threat detected (pattern: '' @ [CHR 0x27]
                                    @ source pat @ [CHR 0x27] @ '')'']
           | None \<Rightarrow>
               (case first_pattern rewrite_patterns text of
                  Some pat \<Rightarrow>
                    Inr [''status'' \<mapsto> ''REWRITE'',
                         ''details'' \<mapsto> ''Potentially unsafe '' @ [CHR 0xE2, CHR 0x86, CHR 0x92]
                                         @ '' rewritten to defensive intent.'',
                         ''processed_prompt'' \<mapsto> rewrite_template text]
                | None \<Rightarrow>
                    Inr [''status'' \<mapsto> ''PASS'', ''details'' \<mapsto> ''No semantic threat detected.'']))"

fun sub_domains :: "string list \<Rightarrow> string \<Rightarrow> string \<Rightarrow> py_error + string" where
  "sub_domains [] mask_token processed = Inr processed"
| "sub_domains (domain # doms) mask_token processed =
     (case re_sub (url_regex domain) mask_token processed of
        Inl e \<Rightarrow> Inl e
      | Inr processed' \<Rightarrow> sub_domains doms mask_token processed')"

definition Output_Sanitizer_evaluate_prompt :: "string \<Rightarrow> string list \<Rightarrow> string \<Rightarrow> py_error + dict" where
  "Output_Sanitizer_evaluate_prompt mask_token disallowed text =
     (case re_sub phone_regex mask_token text of
        Inl e \<Rightarrow> Inl e
      | Inr p1 \<Rightarrow>
          (case re_sub email_regex mask_token p1 of
             Inl e \<Rightarrow> Inl e
           | Inr p2 \<Rightarrow>
               (case sub_domains disallowed mask_token p2 of
                  Inl e \<Rightarrow> Inl e
                | Inr processed \<Rightarrow>
                    if processed \<noteq> text
                    then Inr [''status'' \<mapsto> ''MASK'',
                              ''details'' \<mapsto> ''Output sanitized (PII or unsafe links).'',
                              ''processed_prompt'' \<mapsto> processed]
                    else Inr [''status'' \<mapsto> ''PASS'', ''details'' \<mapsto> ''Output clean.''])))"

text \<open>The method call \<^verbatim>\<open>policy.evaluate_prompt(text)\<close>, dispatched on the class.\<close>

fun evaluate_prompt :: "policy \<Rightarrow> string \<Rightarrow> py_error + dict" where
  "evaluate_prompt (PII_Scrubber mask_token) text = PII_Scrubber_evaluate_prompt mask_token text"
| "evaluate_prompt (Jailbreak_Detector keywords) text =
     Jailbreak_Detector_evaluate_prompt keywords text"
| "evaluate_prompt Semantic_Threat_Detector text = Semantic_Threat_Detector_evaluate_prompt text"
| "evaluate_prompt (Output_Sanitizer mask_token disallowed) text =
     Output_Sanitizer_evaluate_prompt mask_token disallowed text"

section \<open>The gateway (\<^verbatim>\<open>backend.py\<close>)\<close>

text \<open>
  One entry of a policy set: \<^verbatim>\<open>item.get("type")\<close> (absent: \<open>None\<close>) and
  \<^verbatim>\<open>item.get("config", {})\<close>. The log is the list of the records the logger receives,
  each a level and a message.
\<close>

record entry =
  entry_type :: "string option"
  entry_config :: policy_config



definition POLICY_MAP_get :: "string option \<Rightarrow> (policy_config \<Rightarrow> policy) option" where
  "POLICY_MAP_get policy_type = (case policy_type of None \<Rightarrow> None | Some t \<Rightarrow> POLICY_MAP t)"



record GatewayResult =
  status :: string
  original_text :: string
  processed_text :: "string option"
  audit_log :: "dict list"
  final_reason :: string

text \<open>
  Lines 91 to 95 of \<^verbatim>\<open>process_prompt\<close>: what a result that is not a BLOCK does to
  \<open>current_text\<close> and \<open>final_status\<close>.
\<close>

definition absorb :: "dict \<Rightarrow> string \<Rightarrow> string \<times> string \<Rightarrow> string \<times> string" where
  "absorb result st cf =
     (case cf of (current_text, final_status) \<Rightarrow>
        if st = ''MASK'' \<or> st = ''REWRITE''
        then (case result ''processed_prompt'' of
                None \<Rightarrow> (current_text, st)
              | Some processed \<Rightarrow>
                  if processed \<noteq> [] then (processed, st) else (current_text, st))
        else (current_text, final_status))"

fun process_loop :: "policy list \<Rightarrow> string \<Rightarrow> string \<Rightarrow> dict list \<Rightarrow> string \<Rightarrow> py_error + GatewayResult" where
  "process_loop [] text current_text audit final_status =
     Inr \<lparr>status = final_status, original_text = text, processed_text = Some current_text,
          audit_log = audit, final_reason = ''Policy chain executed successfully.''\<rparr>"
| "process_loop (policy # rest) text current_text audit final_status =
     (case evaluate_prompt policy current_text of
        Inl e \<Rightarrow> Inl e
      | Inr result \<Rightarrow>
          (let st = dict_get result ''status'' ''PASS'';
               details = dict_get result ''details'' [];
               audit' = audit @ [[''policy'' \<mapsto> name policy, ''status'' \<mapsto> st,
                                  ''details'' \<mapsto> details]]
           in if st = ''BLOCK''
              then Inr \<lparr>status = ''BLOCK'', original_text = text, processed_text = None,
                        audit_log = audit', final_reason = details\<rparr>
              else (case absorb result st (current_text, final_status) of
                      (current_text', final_status') \<Rightarrow>
                        process_loop rest text current_text' audit' final_status')))"

record LLM_Safety_Gateway =
  policy_name :: string
  policy_chain :: "policy list"


definition process_prompt :: "LLM_Safety_Gateway \<Rightarrow> string \<Rightarrow> py_error + GatewayResult" where
  "process_prompt self text = process_loop (policy_chain self) text text [] ''PASS''"

subsection \<open>The custom keyword firewall\<close>




section \<open>Notions used to state the properties\<close>

text \<open>The audit entry that \<^verbatim>\<open>process_prompt\<close> appends for a policy and its result.\<close>

definition audit_entry :: "policy \<Rightarrow> dict \<Rightarrow> dict" where
  "audit_entry p result =
     [''policy'' \<mapsto> name p, ''status'' \<mapsto> dict_get result ''status'' ''PASS'',
      ''details'' \<mapsto> dict_get result ''details'' []]"

text \<open>
  After the specification: the status of the last audit entry whose status is MASK or
  REWRITE, or PASS if there is none.
\<close>

definition spec_last_transform :: "dict list \<Rightarrow> string" where
  "spec_last_transform audit =
     (let ts = filter (\<lambda>s. s = ''MASK'' \<or> s = ''REWRITE'')
                 (map (\<lambda>e. dict_get e ''status'' []) audit)
      in if ts = [] then ''PASS'' else last ts)"

text \<open>What the loop of \<^verbatim>\<open>_load_policies\<close> makes of one entry: the instance it appends, if the type
  is in \<^verbatim>\<open>POLICY_MAP\<close>, and the record it logs.\<close>

definition resolved_policy :: "entry \<Rightarrow> policy option" where
  "resolved_policy item =
     map_option (\<lambda>policy_cls. policy_cls (entry_config item)) (POLICY_MAP_get (entry_type item))"



text \<open>The character before the cursor after the cursor has moved over \<open>w\<close>.\<close>

definition last_char :: "char option \<Rightarrow> string \<Rightarrow> char option" where
  "last_char prev w = (if w = [] then prev else Some (last w))"

text \<open>
  After the specification: the text contains the standalone word "bomb", in any case (an
  occurrence with no word character directly before or after it), and the text contains
  a creation verb anywhere, in any case.
\<close>

definition spec_standalone_at :: "string \<Rightarrow> string \<Rightarrow> nat \<Rightarrow> bool" where
  "spec_standalone_at word text i =
     (str_lower (take (length word) (drop i text)) = word
      \<and> (i = 0 \<or> \<not> is_word (text ! (i - 1)))
      \<and> (length text \<le> i + length word \<or> \<not> is_word (text ! (i + length word))))"

definition spec_contains_standalone_bomb :: "string \<Rightarrow> bool" where
  "spec_contains_standalone_bomb text =
     (\<exists>i\<in>set [0..<length text]. spec_standalone_at ''bomb'' text i)"

definition spec_contains_creation_verb :: "string \<Rightarrow> bool" where
  "spec_contains_creation_verb text =
     (\<exists>v\<in>set [''make'', ''build'', ''create'', ''manufacture'']. str_in v (str_lower text))"



text \<open>
  The characters that can occur in a match of the email pattern: those of the class
  \<^verbatim>\<open>[a-zA-Z0-9._%+-]\<close>, which contains the two other classes, and \<^verbatim>\<open>@\<close>.
\<close>

definition email_char :: "char \<Rightarrow> bool" where
  "email_char c = (email_local c \<or> c = CHR ''@'')"

text \<open>
  The words the email pattern matches; a text that starts with such a word; a text in
  which no such word starts anywhere.
\<close>

definition is_email :: "string \<Rightarrow> bool" where
  "is_email w =
     (\<exists>w1 w2 w3. w = w1 @ CHR ''@'' # w2 @ CHR ''.'' # w3
        \<and> w1 \<noteq> [] \<and> list_all email_local w1
        \<and> w2 \<noteq> [] \<and> list_all email_domain w2
        \<and> 2 \<le> length w3 \<and> list_all is_alpha w3)"

definition starts_email :: "string \<Rightarrow> bool" where
  "starts_email t = (\<exists>w. is_email w \<and> prefix w t)"

definition no_email :: "string \<Rightarrow> bool" where
  "no_email t = (\<forall>u v. t = u @ v \<longrightarrow> \<not> starts_email v)"

section \<open>The evaluation loop\<close>

lemma audit_entry_simps [simp]:
  "audit_entry p result ''status'' = Some (dict_get result ''status'' ''PASS'')"
  "audit_entry p result ''policy'' = Some (name p)"
  "dict_get (audit_entry p result) ''status'' d = dict_get result ''status'' ''PASS''"
  by (simp_all add: audit_entry_def dict_get_def)

lemma process_loop_step:
  "evaluate_prompt p cur = Inr result \<Longrightarrow>
   process_loop (p # ps) text cur audit fs =
     (if dict_get result ''status'' ''PASS'' = ''BLOCK''
      then Inr \<lparr>status = ''BLOCK'', original_text = text, processed_text = None,
                audit_log = audit @ [audit_entry p result],
                final_reason = dict_get result ''details'' []\<rparr>
      else process_loop ps text
             (fst (absorb result (dict_get result ''status'' ''PASS'') (cur, fs)))
             (audit @ [audit_entry p result])
             (snd (absorb result (dict_get result ''status'' ''PASS'') (cur, fs))))"
  by (simp add: Let_def audit_entry_def split: prod.splits)

lemma process_loop_raise:
  "evaluate_prompt p cur = Inl e \<Longrightarrow> process_loop (p # ps) text cur audit fs = Inl e"
  by simp

lemma snd_absorb:
  "snd (absorb result st (cur, fs)) = (if st = ''MASK'' \<or> st = ''REWRITE'' then st else fs)"
  by (simp add: absorb_def split: option.splits)

lemma fst_absorb:
  "fst (absorb result st (cur, fs)) =
     (if st = ''MASK'' \<or> st = ''REWRITE''
      then (case result ''processed_prompt'' of None \<Rightarrow> cur
            | Some processed \<Rightarrow> if processed \<noteq> [] then processed else cur)
      else cur)"
  by (simp add: absorb_def split: option.splits)

lemmas [simp del] = process_loop.simps(2)

text \<open>The final status is never BLOCK while the loop runs: only MASK and REWRITE are stored.\<close>

lemma process_loop_not_block:
  "process_loop ps text cur audit fs = Inr r \<Longrightarrow> fs \<noteq> ''BLOCK'' \<Longrightarrow>
   (processed_text r = None \<longleftrightarrow> status r = ''BLOCK'')"
proof (induction ps arbitrary: cur audit fs)
  case Nil
  then show ?case by auto
next
  case (Cons p ps)
  show ?case
  proof (cases "evaluate_prompt p cur")
    case (Inl e)
    with Cons.prems show ?thesis by (simp add: process_loop_raise)
  next
    case (Inr result)
    show ?thesis
    proof (cases "dict_get result ''status'' ''PASS'' = ''BLOCK''")
      case True
      with Cons.prems Inr show ?thesis by (auto simp: process_loop_step)
    next
      case False
      from Cons.prems(1) Inr False
      have "process_loop ps text
             (fst (absorb result (dict_get result ''status'' ''PASS'') (cur, fs)))
             (audit @ [audit_entry p result])
             (snd (absorb result (dict_get result ''status'' ''PASS'') (cur, fs))) = Inr r"
        by (simp add: process_loop_step)
      moreover have "snd (absorb result (dict_get result ''status'' ''PASS'') (cur, fs)) \<noteq> ''BLOCK''"
        using False Cons.prems(2) by (simp add: snd_absorb)
      ultimately show ?thesis by (rule Cons.IH)
    qed
  qed
qed

text \<open>
  What a run adds to the audit log: one entry per policy reached, named after it, none
  but possibly the last a BLOCK; a BLOCK ends the run, and the policies behind it have
  no part in the result.
\<close>

lemma process_loop_audit:
  "process_loop ps text cur audit fs = Inr r \<Longrightarrow> fs \<noteq> ''BLOCK'' \<Longrightarrow>
   \<exists>new. audit_log r = audit @ new \<and> length new \<le> length ps \<and>
     map (\<lambda>e. e ''policy'') new = map (\<lambda>p. Some (name p)) (take (length new) ps) \<and>
     (\<forall>e\<in>set (butlast new). e ''status'' \<noteq> Some ''BLOCK'') \<and>
     (status r = ''BLOCK'' \<longrightarrow>
        new \<noteq> [] \<and> last new ''status'' = Some ''BLOCK'' \<and>
        (\<forall>ps'. process_loop (take (length new) ps @ ps') text cur audit fs = Inr r)) \<and>
     (status r \<noteq> ''BLOCK'' \<longrightarrow>
        length new = length ps \<and> (\<forall>e\<in>set new. e ''status'' \<noteq> Some ''BLOCK''))"
proof (induction ps arbitrary: cur audit fs)
  case Nil
  then show ?case by auto
next
  case (Cons p ps)
  show ?case
  proof (cases "evaluate_prompt p cur")
    case (Inl e)
    with Cons.prems show ?thesis by (simp add: process_loop_raise)
  next
    case (Inr result)
    let ?st = "dict_get result ''status'' ''PASS''"
    let ?entry = "audit_entry p result"
    show ?thesis
    proof (cases "?st = ''BLOCK''")
      case True
      with Cons.prems(1) Inr
      have r: "r = \<lparr>status = ''BLOCK'', original_text = text, processed_text = None,
                    audit_log = audit @ [?entry], final_reason = dict_get result ''details'' []\<rparr>"
        by (simp add: process_loop_step)
      have "\<forall>ps'. process_loop (take (length [?entry]) (p # ps) @ ps') text cur audit fs = Inr r"
        using Inr True r by (simp add: process_loop_step)
      with r True show ?thesis
        by (intro exI [of _ "[?entry]"]) simp
    next
      case False
      let ?cur = "fst (absorb result ?st (cur, fs))"
      let ?fs = "snd (absorb result ?st (cur, fs))"
      from Cons.prems(1) Inr False
      have run: "process_loop ps text ?cur (audit @ [?entry]) ?fs = Inr r"
        by (simp add: process_loop_step)
      have fs: "?fs \<noteq> ''BLOCK''"
        using False Cons.prems(2) by (simp add: snd_absorb)
      from Cons.IH [OF run fs] obtain new where
        new: "audit_log r = (audit @ [?entry]) @ new" "length new \<le> length ps"
          "map (\<lambda>e. e ''policy'') new = map (\<lambda>p. Some (name p)) (take (length new) ps)"
          "\<forall>e\<in>set (butlast new). e ''status'' \<noteq> Some ''BLOCK''"
          "status r = ''BLOCK'' \<longrightarrow>
             new \<noteq> [] \<and> last new ''status'' = Some ''BLOCK'' \<and>
             (\<forall>ps'. process_loop (take (length new) ps @ ps') text ?cur (audit @ [?entry]) ?fs = Inr r)"
          "status r \<noteq> ''BLOCK'' \<longrightarrow>
             length new = length ps \<and> (\<forall>e\<in>set new. e ''status'' \<noteq> Some ''BLOCK'')"
        by blast
      have entry: "?entry ''status'' \<noteq> Some ''BLOCK''"
        using False by simp
      have a: "audit_log r = audit @ (?entry # new)"
        using new(1) by simp
      have b: "length (?entry # new) \<le> length (p # ps)"
        using new(2) by simp
      have c: "map (\<lambda>e. e ''policy'') (?entry # new)
                 = map (\<lambda>p. Some (name p)) (take (length (?entry # new)) (p # ps))"
        using new(3) by simp
      have d: "\<forall>e\<in>set (butlast (?entry # new)). e ''status'' \<noteq> Some ''BLOCK''"
        using new(4) entry by simp
      have e: "status r = ''BLOCK'' \<longrightarrow>
                 ?entry # new \<noteq> [] \<and> last (?entry # new) ''status'' = Some ''BLOCK'' \<and>
                 (\<forall>ps'. process_loop (take (length (?entry # new)) (p # ps) @ ps') text cur audit fs
                          = Inr r)"
        using new(5) Inr False by (simp add: process_loop_step)
      have f: "status r \<noteq> ''BLOCK'' \<longrightarrow>
                 length (?entry # new) = length (p # ps) \<and>
                 (\<forall>e\<in>set (?entry # new). e ''status'' \<noteq> Some ''BLOCK'')"
        using new(6) entry by simp
      from a b c d e f show ?thesis by blast
    qed
  qed
qed

lemma spec_last_transform_snoc:
  "spec_last_transform (audit @ [e]) =
     (if dict_get e ''status'' [] = ''MASK'' \<or> dict_get e ''status'' [] = ''REWRITE''
      then dict_get e ''status'' [] else spec_last_transform audit)"
  by (simp add: spec_last_transform_def Let_def)

lemma process_loop_final_status:
  "process_loop ps text cur audit (spec_last_transform audit) = Inr r \<Longrightarrow>
   status r \<noteq> ''BLOCK'' \<Longrightarrow> status r = spec_last_transform (audit_log r)"
proof (induction ps arbitrary: cur audit)
  case Nil
  then show ?case by auto
next
  case (Cons p ps)
  show ?case
  proof (cases "evaluate_prompt p cur")
    case (Inl e)
    with Cons.prems show ?thesis by (simp add: process_loop_raise)
  next
    case (Inr result)
    let ?st = "dict_get result ''status'' ''PASS''"
    show ?thesis
    proof (cases "?st = ''BLOCK''")
      case True
      with Cons.prems Inr show ?thesis by (auto simp: process_loop_step)
    next
      case False
      have "snd (absorb result ?st (cur, spec_last_transform audit))
              = spec_last_transform (audit @ [audit_entry p result])"
        by (simp add: snd_absorb spec_last_transform_snoc)
      with Cons.prems(1) Inr False
      have "process_loop ps text (fst (absorb result ?st (cur, spec_last_transform audit)))
              (audit @ [audit_entry p result])
              (spec_last_transform (audit @ [audit_entry p result])) = Inr r"
        by (simp add: process_loop_step)
      then show ?thesis using Cons.prems(2) by (rule Cons.IH)
    qed
  qed
qed

text \<open>Two evaluations used in the examples below.\<close>

lemma jailbreak_example:
  "evaluate_prompt (Jailbreak_Detector [''jailbreak'']) ''a jailbreak at x@y.zz'' =
     Inr [''status'' \<mapsto> ''BLOCK'',
          ''details'' \<mapsto> ''Jailbreak detected: '' @ [CHR 0x27] @ ''jailbreak'' @ [CHR 0x27]]"
proof -
  have "first_keyword [''jailbreak''] (str_lower ''a jailbreak at x@y.zz'') = Some ''jailbreak''"
    by code_simp
  then show ?thesis by (simp add: Jailbreak_Detector_evaluate_prompt_def)
qed

lemma jailbreak_example_masked:
  "evaluate_prompt (Jailbreak_Detector [''jailbreak'']) ''a jailbreak at [EMAIL_MASKED]'' =
     Inr [''status'' \<mapsto> ''BLOCK'',
          ''details'' \<mapsto> ''Jailbreak detected: '' @ [CHR 0x27] @ ''jailbreak'' @ [CHR 0x27]]"
proof -
  have "first_keyword [''jailbreak''] (str_lower ''a jailbreak at [EMAIL_MASKED]'')
          = Some ''jailbreak''"
    by code_simp
  then show ?thesis by (simp add: Jailbreak_Detector_evaluate_prompt_def)
qed

lemma jailbreak_example_pass:
  "evaluate_prompt (Jailbreak_Detector [''jailbreak'']) ''mail [EMAIL_MASKED]'' =
     Inr [''status'' \<mapsto> ''PASS'', ''details'' \<mapsto> ''No jailbreak detected.'']"
proof -
  have "first_keyword [''jailbreak''] (str_lower ''mail [EMAIL_MASKED]'') = None"
    by code_simp
  then show ?thesis by (simp add: Jailbreak_Detector_evaluate_prompt_def)
qed

lemma pii_example:
  "evaluate_prompt (PII_Scrubber ''[EMAIL_MASKED]'') ''a jailbreak at x@y.zz'' =
     Inr [''status'' \<mapsto> ''MASK'', ''details'' \<mapsto> ''PII (email) masked.'',
          ''processed_prompt'' \<mapsto> ''a jailbreak at [EMAIL_MASKED]'']"
proof -
  have "re_sub email_regex ''[EMAIL_MASKED]'' ''a jailbreak at x@y.zz''
          = Inr ''a jailbreak at [EMAIL_MASKED]''"
    by code_simp
  then show ?thesis by (simp add: PII_Scrubber_evaluate_prompt_def)
qed

lemma pii_example_pass:
  "evaluate_prompt (PII_Scrubber ''[EMAIL_MASKED]'') ''mail x@y.zz'' =
     Inr [''status'' \<mapsto> ''MASK'', ''details'' \<mapsto> ''PII (email) masked.'',
          ''processed_prompt'' \<mapsto> ''mail [EMAIL_MASKED]'']"
proof -
  have "re_sub email_regex ''[EMAIL_MASKED]'' ''mail x@y.zz'' = Inr ''mail [EMAIL_MASKED]''"
    by code_simp
  then show ?thesis by (simp add: PII_Scrubber_evaluate_prompt_def)
qed

lemma pii_empty_token_example:
  "evaluate_prompt (PII_Scrubber []) ''a@b.co'' =
     Inr [''status'' \<mapsto> ''MASK'', ''details'' \<mapsto> ''PII (email) masked.'',
          ''processed_prompt'' \<mapsto> []]"
proof -
  have "re_sub email_regex [] ''a@b.co'' = Inr []"
    by code_simp
  then show ?thesis by (simp add: PII_Scrubber_evaluate_prompt_def)
qed

section \<open>Properties of gateway evaluation\<close>

text \<open>
  Claim C1, as the code has it. When a policy returns a result that is not a BLOCK, the
  loop goes on with the audit entry appended and
  \<^item> \<open>final_status\<close> set to the result's status whenever that status is MASK or REWRITE,
    whether or not the result carries a non-empty \<open>processed_prompt\<close>, and left unchanged
    for PASS (and for any other status);
  \<^item> \<open>current_text\<close> set to the result's \<open>processed_prompt\<close> when the status is MASK or
    REWRITE and that text is present and non-empty, and left unchanged otherwise.
\<close>

theorem process_prompt_step:
  assumes "evaluate_prompt p current_text = Inr result"
    and "dict_get result ''status'' ''PASS'' = st"
    and "st \<noteq> ''BLOCK''"
  shows "process_loop (p # rest) text current_text audit final_status =
           process_loop rest text
             (case result ''processed_prompt'' of
                None \<Rightarrow> current_text
              | Some processed \<Rightarrow>
                  if (st = ''MASK'' \<or> st = ''REWRITE'') \<and> processed \<noteq> []
                  then processed else current_text)
             (audit @ [[''policy'' \<mapsto> name p, ''status'' \<mapsto> st,
                        ''details'' \<mapsto> dict_get result ''details'' []]])
             (if st = ''MASK'' \<or> st = ''REWRITE'' then st else final_status)"
  using assms
  by (auto simp: process_loop_step fst_absorb snd_absorb audit_entry_def split: option.splits)

theorem process_prompt_step_witness:
  "process_loop [PII_Scrubber ''[EMAIL_MASKED]'', Jailbreak_Detector [''jailbreak'']]
     ''mail x@y.zz'' ''mail x@y.zz'' [] ''PASS''
   = process_loop [Jailbreak_Detector [''jailbreak'']] ''mail x@y.zz'' ''mail [EMAIL_MASKED]''
       [[''policy'' \<mapsto> ''PII_Scrubber'', ''status'' \<mapsto> ''MASK'',
         ''details'' \<mapsto> ''PII (email) masked.'']] ''MASK''"
  using process_prompt_step [OF pii_example_pass, of "''MASK''"
          "[Jailbreak_Detector [''jailbreak'']]" "''mail x@y.zz''" "[]" "''PASS''"]
  by (simp add: dict_get_def)

text \<open>
  The claim as written fails in its last part (\<open>final_status\<close> updated only with a
  non-empty processed text): a PII scrubber configured with the empty mask token turns
  \<^verbatim>\<open>a@b.co\<close> into the empty text and returns MASK with it; the gateway keeps the
  text, and reports MASK.
\<close>

theorem final_status_without_text_counterexample:
  "evaluate_prompt (PII_Scrubber []) ''a@b.co'' =
     Inr [''status'' \<mapsto> ''MASK'', ''details'' \<mapsto> ''PII (email) masked.'',
          ''processed_prompt'' \<mapsto> []]
   \<and> process_prompt \<lparr>policy_name = ''p'', policy_chain = [PII_Scrubber []]\<rparr> ''a@b.co'' =
     Inr \<lparr>status = ''MASK'', original_text = ''a@b.co'', processed_text = Some ''a@b.co'',
          audit_log = [[''policy'' \<mapsto> ''PII_Scrubber'', ''status'' \<mapsto> ''MASK'',
                        ''details'' \<mapsto> ''PII (email) masked.'']],
          final_reason = ''Policy chain executed successfully.''\<rparr>"
  by (simp add: pii_empty_token_example process_prompt_def process_loop_step dict_get_def
        fst_absorb snd_absorb audit_entry_def del: evaluate_prompt.simps)

text \<open>
  Claim C2. In the result of an evaluation, \<open>processed_text\<close> is \<open>None\<close> if and only if
  the status is BLOCK; on any other outcome a text is present.
\<close>

theorem processed_text_none_iff_block:
  assumes "process_prompt self text = Inr r"
  shows "(processed_text r = None \<longleftrightarrow> status r = ''BLOCK'')
       \<and> (status r \<noteq> ''BLOCK'' \<longrightarrow> (\<exists>t. processed_text r = Some t))"
proof -
  have "processed_text r = None \<longleftrightarrow> status r = ''BLOCK''"
    using assms unfolding process_prompt_def by (rule process_loop_not_block) simp
  then show ?thesis by auto
qed

theorem processed_text_none_iff_block_witness:
  "process_prompt \<lparr>policy_name = ''p'',
                   policy_chain = [PII_Scrubber ''[EMAIL_MASKED]'', Jailbreak_Detector [''jailbreak'']]\<rparr>
     ''mail x@y.zz''
   = Inr \<lparr>status = ''MASK'', original_text = ''mail x@y.zz'',
          processed_text = Some ''mail [EMAIL_MASKED]'',
          audit_log = [[''policy'' \<mapsto> ''PII_Scrubber'', ''status'' \<mapsto> ''MASK'',
                        ''details'' \<mapsto> ''PII (email) masked.''],
                       [''policy'' \<mapsto> ''Jailbreak_Detector'', ''status'' \<mapsto> ''PASS'',
                        ''details'' \<mapsto> ''No jailbreak detected.'']],
          final_reason = ''Policy chain executed successfully.''\<rparr>
   \<and> (Some ''mail [EMAIL_MASKED]'' = None \<longleftrightarrow> ''MASK'' = ''BLOCK'')"
proof -
  let ?self = "\<lparr>policy_name = ''p'',
                policy_chain = [PII_Scrubber ''[EMAIL_MASKED]'', Jailbreak_Detector [''jailbreak'']]\<rparr>"
  let ?r = "\<lparr>status = ''MASK'', original_text = ''mail x@y.zz'',
             processed_text = Some ''mail [EMAIL_MASKED]'',
             audit_log = [[''policy'' \<mapsto> ''PII_Scrubber'', ''status'' \<mapsto> ''MASK'',
                           ''details'' \<mapsto> ''PII (email) masked.''],
                          [''policy'' \<mapsto> ''Jailbreak_Detector'', ''status'' \<mapsto> ''PASS'',
                           ''details'' \<mapsto> ''No jailbreak detected.'']],
             final_reason = ''Policy chain executed successfully.''\<rparr>"
  have run: "process_prompt ?self ''mail x@y.zz'' = Inr ?r"
    by (simp add: process_prompt_def process_loop_step pii_example_pass jailbreak_example_pass
          dict_get_def fst_absorb snd_absorb audit_entry_def del: evaluate_prompt.simps)
  from processed_text_none_iff_block [OF run] run show ?thesis by simp
qed

text \<open>
  Claim C3. The audit log has one entry per policy evaluated, in chain order: its
  entries carry the names of the first policies of the chain, as many as the log is
  long, and no entry before the last is a BLOCK. If the result is a BLOCK, the last
  entry is the BLOCK, so the log is as long as the position of the first BLOCK, and the
  policies behind that position are not evaluated: with any policies in their place
  the result is the same. If the result is not a BLOCK, the log is as long as the chain
  and no entry is a BLOCK.
\<close>

theorem audit_log_follows_chain:
  assumes "process_prompt self text = Inr r"
  shows "length (audit_log r) \<le> length (policy_chain self)
       \<and> map (\<lambda>e. e ''policy'') (audit_log r)
           = map (\<lambda>p. Some (name p)) (take (length (audit_log r)) (policy_chain self))
       \<and> (\<forall>e\<in>set (butlast (audit_log r)). e ''status'' \<noteq> Some ''BLOCK'')
       \<and> (status r = ''BLOCK'' \<longrightarrow>
            audit_log r \<noteq> [] \<and> last (audit_log r) ''status'' = Some ''BLOCK'' \<and>
            (\<forall>ps'. process_prompt (self\<lparr>policy_chain :=
                       take (length (audit_log r)) (policy_chain self) @ ps'\<rparr>) text = Inr r))
       \<and> (status r \<noteq> ''BLOCK'' \<longrightarrow>
            length (audit_log r) = length (policy_chain self) \<and>
            (\<forall>e\<in>set (audit_log r). e ''status'' \<noteq> Some ''BLOCK''))"
  using process_loop_audit [of "policy_chain self" "text" "text" "[]" "''PASS''" r] assms
  unfolding process_prompt_def by auto

theorem audit_log_follows_chain_witness:
  "process_prompt \<lparr>policy_name = ''p'',
                   policy_chain = [PII_Scrubber ''[EMAIL_MASKED]'', Jailbreak_Detector [''jailbreak''],
                                   Semantic_Threat_Detector]\<rparr>
     ''a jailbreak at x@y.zz''
   = Inr \<lparr>status = ''BLOCK'', original_text = ''a jailbreak at x@y.zz'', processed_text = None,
          audit_log = [[''policy'' \<mapsto> ''PII_Scrubber'', ''status'' \<mapsto> ''MASK'',
                        ''details'' \<mapsto> ''PII (email) masked.''],
                       [''policy'' \<mapsto> ''Jailbreak_Detector'', ''status'' \<mapsto> ''BLOCK'',
                        ''details'' \<mapsto> ''Jailbreak detected: '' @ [CHR 0x27] @ ''jailbreak''
                                        @ [CHR 0x27]]],
          final_reason = ''Jailbreak detected: '' @ [CHR 0x27] @ ''jailbreak'' @ [CHR 0x27]\<rparr>
   \<and> (\<forall>ps'. process_prompt \<lparr>policy_name = ''p'',
                   policy_chain = [PII_Scrubber ''[EMAIL_MASKED]'', Jailbreak_Detector [''jailbreak'']]
                                  @ ps'\<rparr>
               ''a jailbreak at x@y.zz''
        = process_prompt \<lparr>policy_name = ''p'',
                   policy_chain = [PII_Scrubber ''[EMAIL_MASKED]'', Jailbreak_Detector [''jailbreak''],
                                   Semantic_Threat_Detector]\<rparr>
               ''a jailbreak at x@y.zz'')"
proof -
  let ?self = "\<lparr>policy_name = ''p'',
                policy_chain = [PII_Scrubber ''[EMAIL_MASKED]'', Jailbreak_Detector [''jailbreak''],
                                Semantic_Threat_Detector]\<rparr>"
  let ?r = "\<lparr>status = ''BLOCK'', original_text = ''a jailbreak at x@y.zz'', processed_text = None,
             audit_log = [[''policy'' \<mapsto> ''PII_Scrubber'', ''status'' \<mapsto> ''MASK'',
                           ''details'' \<mapsto> ''PII (email) masked.''],
                          [''policy'' \<mapsto> ''Jailbreak_Detector'', ''status'' \<mapsto> ''BLOCK'',
                           ''details'' \<mapsto> ''Jailbreak detected: '' @ [CHR 0x27] @ ''jailbreak''
                                           @ [CHR 0x27]]],
             final_reason = ''Jailbreak detected: '' @ [CHR 0x27] @ ''jailbreak'' @ [CHR 0x27]\<rparr>"
  have run: "process_prompt ?self ''a jailbreak at x@y.zz'' = Inr ?r"
    by (simp add: process_prompt_def process_loop_step pii_example jailbreak_example_masked
          dict_get_def fst_absorb snd_absorb audit_entry_def del: evaluate_prompt.simps)
  from audit_log_follows_chain [OF run] run show ?thesis by simp
qed

text \<open>
  Claim C5. When no policy returns BLOCK (no audit entry is a BLOCK), the status of the
  result is the status of the last audit entry whose status is MASK or REWRITE, or PASS
  if there is no such entry.
\<close>

theorem final_status_is_last_transform:
  assumes "process_prompt self text = Inr r"
    and "\<forall>e\<in>set (audit_log r). e ''status'' \<noteq> Some ''BLOCK''"
  shows "status r = spec_last_transform (audit_log r)"
proof -
  have run: "process_loop (policy_chain self) text text [] ''PASS'' = Inr r"
    using assms(1) by (simp add: process_prompt_def)
  have "status r \<noteq> ''BLOCK''"
    using process_loop_audit [OF run] assms(2) by auto
  moreover have "process_loop (policy_chain self) text text [] (spec_last_transform []) = Inr r"
    using run by (simp add: spec_last_transform_def)
  ultimately show ?thesis by (intro process_loop_final_status)
qed

theorem final_status_is_last_transform_witness:
  "process_prompt \<lparr>policy_name = ''q'',
                   policy_chain = [PII_Scrubber ''[EMAIL_MASKED]'', Jailbreak_Detector [''jailbreak'']]\<rparr>
     ''mail x@y.zz''
   = Inr \<lparr>status = ''MASK'', original_text = ''mail x@y.zz'',
          processed_text = Some ''mail [EMAIL_MASKED]'',
          audit_log = [[''policy'' \<mapsto> ''PII_Scrubber'', ''status'' \<mapsto> ''MASK'',
                        ''details'' \<mapsto> ''PII (email) masked.''],
                       [''policy'' \<mapsto> ''Jailbreak_Detector'', ''status'' \<mapsto> ''PASS'',
                        ''details'' \<mapsto> ''No jailbreak detected.'']],
          final_reason = ''Policy chain executed successfully.''\<rparr>
   \<and> spec_last_transform
        [[''policy'' \<mapsto> ''PII_Scrubber'', ''status'' \<mapsto> ''MASK'',
          ''details'' \<mapsto> ''PII (email) masked.''],
         [''policy'' \<mapsto> ''Jailbreak_Detector'', ''status'' \<mapsto> ''PASS'',
          ''details'' \<mapsto> ''No jailbreak detected.'']] = ''MASK''"
proof -
  let ?self = "\<lparr>policy_name = ''q'',
                policy_chain = [PII_Scrubber ''[EMAIL_MASKED]'', Jailbreak_Detector [''jailbreak'']]\<rparr>"
  let ?r = "\<lparr>status = ''MASK'', original_text = ''mail x@y.zz'',
             processed_text = Some ''mail [EMAIL_MASKED]'',
             audit_log = [[''policy'' \<mapsto> ''PII_Scrubber'', ''status'' \<mapsto> ''MASK'',
                           ''details'' \<mapsto> ''PII (email) masked.''],
                          [''policy'' \<mapsto> ''Jailbreak_Detector'', ''status'' \<mapsto> ''PASS'',
                           ''details'' \<mapsto> ''No jailbreak detected.'']],
             final_reason = ''Policy chain executed successfully.''\<rparr>"
  have run: "process_prompt ?self ''mail x@y.zz'' = Inr ?r"
    by (simp add: process_prompt_def process_loop_step pii_example_pass jailbreak_example_pass
          dict_get_def fst_absorb snd_absorb audit_entry_def del: evaluate_prompt.simps)
  have "\<forall>e\<in>set (audit_log ?r). e ''status'' \<noteq> Some ''BLOCK''"
    by simp
  from final_status_is_last_transform [OF run this] run show ?thesis by simp
qed

section \<open>Chain construction and the keyword firewall\<close>



lemma resolved_policy_None [simp]:
  "resolved_policy item = None \<longleftrightarrow> POLICY_MAP_get (entry_type item) = None"
  by (simp add: resolved_policy_def)











section \<open>The compound rule of the semantic-threat detector\<close>

lemma char_le_nat: "(a::char) \<le> b \<longleftrightarrow> (of_char a :: nat) \<le> of_char b"
  by (simp add: less_eq_char_def)

lemma is_alpha_lower_word: "is_alpha (lower c) \<Longrightarrow> is_word c"
proof (cases "in_range CHR ''A'' CHR ''Z'' c \<or> (in_range (CHR 0xC0) (CHR 0xDE) c \<and> c \<noteq> CHR 0xD7)")
  case False
  then have "lower c = c" by (auto simp: lower_def)
  moreover assume "is_alpha (lower c)"
  ultimately show ?thesis by (simp add: is_word_def)
next
  case True
  then show ?thesis
  proof
    assume "in_range CHR ''A'' CHR ''Z'' c"
    then show ?thesis by (simp add: is_word_def is_alpha_def)
  next
    assume a: "in_range (CHR 0xC0) (CHR 0xDE) c \<and> c \<noteq> CHR 0xD7"
    then have "(of_char c :: nat) \<noteq> of_char (CHR 0xD7)"
      by (simp only: of_char_eq_iff not_False_eq_True)
    then have "(of_char c :: nat) \<noteq> 215"
      by simp
    with a have "in_range (CHR 0xC0) (CHR 0xD6) c \<or> in_range (CHR 0xD8) (CHR 0xF6) c"
      by (auto simp: in_range_def char_le_nat)
    then show ?thesis by (auto simp: is_word_def)
  qed
qed

lemma lit_i_Cons: "lit_i (k # v) = Seq (Chr (\<lambda>c. lower c = lower k)) (lit_i v)"
  by (simp add: lit_i_def)

lemma lit_i_Nil: "lit_i [] = Eps"
  by (simp add: lit_i_def)

lemma ends_lit_i:
  "map lower w = map lower v \<Longrightarrow> ends (lit_i v) (prev, w @ post) = [(last_char prev w, post)]"
proof (induction v arbitrary: w prev)
  case Nil
  then show ?case by (simp add: lit_i_Nil last_char_def)
next
  case (Cons k v)
  then obtain a w' where w: "w = a # w'" "lower a = lower k" "map lower w' = map lower v"
    by (cases w) auto
  from Cons.IH [OF w(3), of "Some a"] w(1,2) show ?case
    by (simp add: lit_i_Cons last_char_def)
qed

lemma search_found:
  "ends r (last_char prev pre, t) \<noteq> [] \<Longrightarrow> search r prev (pre @ t) \<noteq> None"
proof (induction pre arbitrary: prev)
  case Nil
  then show ?case
    by (cases t) (auto simp: last_char_def split: list.splits)
next
  case (Cons c pre)
  have "last_char (Some c) pre = last_char prev (c # pre)"
    by (simp add: last_char_def)
  with Cons.prems have "search r (Some c) (pre @ t) \<noteq> None"
    by (intro Cons.IH) simp
  then show ?case by (auto split: list.splits)
qed

lemma str_in_split: "str_in v low \<Longrightarrow> \<exists>pre post. low = pre @ v @ post"
proof (induction low)
  case Nil
  then show ?case by simp
next
  case (Cons c cs)
  from Cons.prems consider "prefix v (c # cs)" | "str_in v cs" by auto
  then show ?case
  proof cases
    case 1
    then obtain post where "c # cs = v @ post" by (auto simp: prefix_def)
    then have "c # cs = [] @ v @ post" by simp
    then show ?thesis by blast
  next
    case 2
    with Cons.IH obtain pre post where "cs = pre @ v @ post" by blast
    then have "c # cs = (c # pre) @ v @ post" by simp
    then show ?thesis by blast
  qed
qed

lemma lower_occurrence:
  assumes "str_in v (str_lower text)"
  shows "\<exists>pre w post. text = pre @ w @ post \<and> map lower w = v"
proof -
  from str_in_split [OF assms] obtain lpre lpost where "map lower text = lpre @ v @ lpost"
    by (auto simp: str_lower_def)
  then obtain pre rest where a: "text = pre @ rest" "map lower rest = v @ lpost"
    by (metis map_eq_append_conv)
  then obtain w post where "rest = w @ post" "map lower w = v"
    by (metis map_eq_append_conv)
  with a show ?thesis by blast
qed

lemma lower_verbs:
  "map lower ''make'' = ''make''" "map lower ''build'' = ''build''"
  "map lower ''create'' = ''create''" "map lower ''manufacture'' = ''manufacture''"
  "map lower ''bomb'' = ''bomb''"
  by code_simp+

lemma creation_verbs_found:
  assumes "spec_contains_creation_verb text"
  shows "re_search creation_verbs text"
proof -
  from assms obtain v where v: "v \<in> set [''make'', ''build'', ''create'', ''manufacture'']"
    and "str_in v (str_lower text)"
    by (auto simp: spec_contains_creation_verb_def)
  from lower_occurrence [OF this(2)] obtain pre w post
    where dec: "text = pre @ w @ post" and w: "map lower w = v" by blast
  from v have "map lower v = v"
    by (auto simp: lower_def in_range_def)
  with w have "map lower w = map lower v"
    by simp
  then have lit: "ends (lit_i v) (last_char None pre, w @ post) \<noteq> []"
    by (simp add: ends_lit_i)
  from v lit have "ends creation_verbs (last_char None pre, w @ post) \<noteq> []"
    by (auto simp: creation_verbs_def)
  then have "search creation_verbs None (pre @ w @ post) \<noteq> None"
    by (rule search_found)
  with dec show ?thesis by (simp add: re_search_def)
qed

lemma bomb_word_found:
  assumes "spec_contains_standalone_bomb text"
  shows "re_search bomb_word text"
proof -
  from assms obtain i where i: "i < length text" and at: "spec_standalone_at ''bomb'' text i"
    by (auto simp: spec_contains_standalone_bomb_def)
  define pre where "pre = take i text"
  define w where "w = take 4 (drop i text)"
  define post where "post = drop (i + 4) text"
  have dec: "text = pre @ w @ post"
    unfolding pre_def w_def post_def
    by (metis append_take_drop_id drop_drop add.commute)
  have four: "length ''bomb'' = 4" by simp
  from at have at': "map lower (take 4 (drop i text)) = ''bomb''"
    "i = 0 \<or> \<not> is_word (text ! (i - 1))"
    "length text \<le> i + 4 \<or> \<not> is_word (text ! (i + 4))"
    unfolding spec_standalone_at_def str_lower_def four by blast+
  then have lw: "map lower w = ''bomb''"
    by (simp add: w_def)
  from lw obtain a b c d where w4: "w = [a, b, c, d]"
    "lower a = CHR ''b''" "lower b = CHR ''o''" "lower c = CHR ''m''" "lower d = CHR ''b''"
    by (auto simp: map_eq_Cons_conv)
  have wa: "is_word a" and wd: "is_word d"
    using w4 by (auto intro!: is_alpha_lower_word simp: is_alpha_def in_range_def)
  have before: "\<not> (case last_char None pre of None \<Rightarrow> False | Some c \<Rightarrow> is_word c)"
  proof (cases "i = 0")
    case True
    then show ?thesis by (simp add: pre_def last_char_def)
  next
    case False
    with i have ne: "pre \<noteq> []"
      by (auto simp: pre_def)
    have lp: "length pre = i"
      using i by (simp add: pre_def)
    have "last pre = pre ! (length pre - 1)"
      using ne by (rule last_conv_nth)
    also have "\<dots> = text ! (i - 1)"
      using False by (simp add: lp) (simp add: pre_def)
    finally have "last pre = text ! (i - 1)" .
    with at'(2) False ne show ?thesis
      by (simp add: last_char_def)
  qed
  have after: "\<not> (case post of [] \<Rightarrow> False | c # _ \<Rightarrow> is_word c)"
  proof (cases post)
    case Nil
    then show ?thesis by simp
  next
    case (Cons e es)
    have lt: "i + 4 < length text"
    proof (rule ccontr)
      assume "\<not> i + 4 < length text"
      then have "post = []" by (simp add: post_def)
      with Cons show False by simp
    qed
    then have "hd post = text ! (i + 4)"
      by (simp add: post_def hd_drop_conv_nth)
    with at'(3) Cons lt show ?thesis
      by simp
  qed
  have b1: "at_boundary (last_char None pre) (w @ post)"
    using before wa w4 by (simp add: at_boundary_def)
  have b2: "at_boundary (last_char (last_char None pre) w) post"
    using after wd w4 by (simp add: at_boundary_def last_char_def)
  have "map lower w = map lower ''bomb''"
    using lw by (simp only: lower_verbs)
  then have "ends (lit_i ''bomb'') (last_char None pre, w @ post)
               = [(last_char (last_char None pre) w, post)]"
    by (rule ends_lit_i)
  with b1 b2 have "ends bomb_word (last_char None pre, w @ post) \<noteq> []"
    by (simp add: bomb_word_def seqs_def)
  then have "search bomb_word None (pre @ w @ post) \<noteq> None"
    by (rule search_found)
  with dec show ?thesis by (simp add: re_search_def)
qed

text \<open>
  Claim C6. A text that contains the standalone word "bomb" and, anywhere, a creation
  verb is blocked by the semantic-threat detector with the fixed reason of the compound
  rule, whatever the block patterns and the rewrite patterns would say, and wherever
  the two occurrences are.
\<close>

theorem bomb_compound_rule:
  assumes "spec_contains_standalone_bomb text" and "spec_contains_creation_verb text"
  shows "evaluate_prompt Semantic_Threat_Detector text =
           Inr [''status'' \<mapsto> ''BLOCK'', ''details'' \<mapsto> ''Dangerous bomb-making intent detected.'']"
  using bomb_word_found [OF assms(1)] creation_verbs_found [OF assms(2)]
  by (simp add: Semantic_Threat_Detector_evaluate_prompt_def)

theorem bomb_compound_rule_witness:
  "spec_contains_standalone_bomb ''A BOMB? i manufactured it''
 \<and> spec_contains_creation_verb ''A BOMB? i manufactured it''
 \<and> evaluate_prompt Semantic_Threat_Detector ''A BOMB? i manufactured it'' =
     Inr [''status'' \<mapsto> ''BLOCK'', ''details'' \<mapsto> ''Dangerous bomb-making intent detected.'']"
proof -
  have a: "spec_contains_standalone_bomb ''A BOMB? i manufactured it''" by code_simp
  have b: "spec_contains_creation_verb ''A BOMB? i manufactured it''" by code_simp
  from bomb_compound_rule [OF a b] a b show ?thesis by simp
qed

section \<open>Totality of evaluation\<close>

declare sub_loop.simps [simp del]

lemma tokenize_literal: "bs \<notin> set tok \<Longrightarrow> tokenize tok = Some (map (\<lambda>c. [c]) tok)"
  by (induction tok rule: tokenize.induct) auto

lemma parse_tokens_literal: "parse_tokens (map (\<lambda>c. [c]) tok) = Some (map (\<lambda>c. TLit [c]) tok)"
  by (induction tok) auto

lemma parse_template_literal:
  "bs \<notin> set tok \<Longrightarrow> parse_template tok = Inr (map (\<lambda>c. TLit [c]) tok)"
  by (simp add: parse_template_def tokenize_literal parse_tokens_literal)

lemma expand_template_literal: "expand_template (map (\<lambda>c. TLit [c]) tok) m = tok"
  by (induction tok) auto


















section \<open>Idempotence of the PII scrubber\<close>

lemma rep_ends_iff:
  "(p', aft') \<in> set (rep_ends P lo None prev aft) \<longleftrightarrow>
   (\<exists>w. aft = w @ aft' \<and> list_all P w \<and> lo \<le> length w \<and> p' = last_char prev w)"
proof (induction aft arbitrary: lo prev)
  case Nil
  then show ?case by (auto simp: last_char_def)
next
  case (Cons c cs)
  show ?case
  proof
    assume "(p', aft') \<in> set (rep_ends P lo None prev (c # cs))"
    then consider "P c" "(p', aft') \<in> set (rep_ends P (lo - 1) None (Some c) cs)"
      | "lo = 0" "p' = prev" "aft' = c # cs"
      by (auto split: if_splits)
    then show "\<exists>w. c # cs = w @ aft' \<and> list_all P w \<and> lo \<le> length w \<and> p' = last_char prev w"
    proof cases
      case 1
      from 1(2) obtain w where w: "cs = w @ aft'" "list_all P w" "lo - 1 \<le> length w"
        "p' = last_char (Some c) w"
        unfolding Cons.IH by blast
      with 1(1) have "c # cs = (c # w) @ aft' \<and> list_all P (c # w) \<and> lo \<le> length (c # w)
                      \<and> p' = last_char prev (c # w)"
        by (auto simp: last_char_def)
      then show ?thesis by blast
    next
      case 2
      then have "c # cs = [] @ aft' \<and> list_all P [] \<and> lo \<le> length ([] :: string)
                 \<and> p' = last_char prev []"
        by (simp add: last_char_def)
      then show ?thesis by blast
    qed
  next
    assume "\<exists>w. c # cs = w @ aft' \<and> list_all P w \<and> lo \<le> length w \<and> p' = last_char prev w"
    then obtain w where w: "c # cs = w @ aft'" "list_all P w" "lo \<le> length w"
      "p' = last_char prev w" by blast
    show "(p', aft') \<in> set (rep_ends P lo None prev (c # cs))"
    proof (cases w)
      case Nil
      with w have "aft' = c # cs" "lo = 0" "p' = prev"
        by (simp_all add: last_char_def)
      then show ?thesis by simp
    next
      case (Cons a w')
      with w have "a = c" "cs = w' @ aft'" "P c" "list_all P w'" "lo - 1 \<le> length w'"
        "p' = last_char (Some c) w'"
        by (auto simp: last_char_def)
      then have "(p', aft') \<in> set (rep_ends P (lo - 1) None (Some c) cs)"
        unfolding Cons.IH by blast
      with \<open>P c\<close> show ?thesis by simp
    qed
  qed
qed

lemma ends_Chr_iff:
  "(p', aft') \<in> set (ends (Chr P) (prev, aft)) \<longleftrightarrow> (\<exists>c. aft = c # aft' \<and> P c \<and> p' = Some c)"
  by (auto split: list.splits)

lemma ends_SeqI:
  "m \<in> set (ends r1 st) \<Longrightarrow> e \<in> set (ends r2 m) \<Longrightarrow> e \<in> set (ends (Seq r1 r2) st)"
  by auto

lemma ends_email_iff:
  "(p', aft') \<in> set (ends email_regex (prev, aft)) \<longleftrightarrow>
   (\<exists>w1 w2 w3. aft = w1 @ CHR ''@'' # w2 @ CHR ''.'' # w3 @ aft'
        \<and> w1 \<noteq> [] \<and> list_all email_local w1
        \<and> w2 \<noteq> [] \<and> list_all email_domain w2
        \<and> 2 \<le> length w3 \<and> list_all is_alpha w3 \<and> p' = last_char (Some CHR ''.'') w3)"
  (is "?L \<longleftrightarrow> ?R")
proof
  assume ?L
  then obtain p1 a1 p2 a2 p3 a3 p4 a4 where
    s1: "(p1, a1) \<in> set (rep_ends email_local 1 None prev aft)" and
    s2: "(p2, a2) \<in> set (ends (Chr (\<lambda>c. c = CHR ''@'')) (p1, a1))" and
    s3: "(p3, a3) \<in> set (rep_ends email_domain 1 None p2 a2)" and
    s4: "(p4, a4) \<in> set (ends (Chr (\<lambda>c. c = CHR ''.'')) (p3, a3))" and
    s5: "(p', aft') \<in> set (rep_ends is_alpha 2 None p4 a4)"
    unfolding email_regex_def by (fastforce simp del: ends.simps(2))
  from s1 obtain w1 where w1: "aft = w1 @ a1" "list_all email_local w1" "1 \<le> length w1"
    unfolding rep_ends_iff by blast
  from s2 have a1: "a1 = CHR ''@'' # a2" "p2 = Some CHR ''@''"
    unfolding ends_Chr_iff by auto
  from s3 obtain w2 where w2: "a2 = w2 @ a3" "list_all email_domain w2" "1 \<le> length w2"
    unfolding rep_ends_iff by blast
  from s4 have a3: "a3 = CHR ''.'' # a4" "p4 = Some CHR ''.''"
    unfolding ends_Chr_iff by auto
  from s5 obtain w3 where w3: "a4 = w3 @ aft'" "list_all is_alpha w3" "2 \<le> length w3"
    "p' = last_char p4 w3"
    unfolding rep_ends_iff by blast
  from w1 a1 w2 a3 w3 have "aft = w1 @ CHR ''@'' # w2 @ CHR ''.'' # w3 @ aft'
        \<and> w1 \<noteq> [] \<and> list_all email_local w1
        \<and> w2 \<noteq> [] \<and> list_all email_domain w2
        \<and> 2 \<le> length w3 \<and> list_all is_alpha w3 \<and> p' = last_char (Some CHR ''.'') w3"
    by auto
  then show ?R by blast
next
  assume ?R
  then obtain w1 w2 w3 where w: "aft = w1 @ CHR ''@'' # w2 @ CHR ''.'' # w3 @ aft'"
    "w1 \<noteq> []" "list_all email_local w1" "w2 \<noteq> []" "list_all email_domain w2"
    "2 \<le> length w3" "list_all is_alpha w3" "p' = last_char (Some CHR ''.'') w3"
    by blast
  let ?a1 = "CHR ''@'' # w2 @ CHR ''.'' # w3 @ aft'"
  let ?a2 = "w2 @ CHR ''.'' # w3 @ aft'"
  let ?a3 = "CHR ''.'' # w3 @ aft'"
  let ?a4 = "w3 @ aft'"
  have s1: "(last_char prev w1, ?a1) \<in> set (rep_ends email_local 1 None prev aft)"
    unfolding rep_ends_iff using w by (intro exI [of _ w1]) (cases w1, auto)
  have s2: "(Some CHR ''@'', ?a2) \<in> set (ends (Chr (\<lambda>c. c = CHR ''@'')) (last_char prev w1, ?a1))"
    unfolding ends_Chr_iff by simp
  have s3: "(last_char (Some CHR ''@'') w2, ?a3) \<in> set (rep_ends email_domain 1 None (Some CHR ''@'') ?a2)"
    unfolding rep_ends_iff using w by (intro exI [of _ w2]) (cases w2, auto)
  have s4: "(Some CHR ''.'', ?a4)
              \<in> set (ends (Chr (\<lambda>c. c = CHR ''.'')) (last_char (Some CHR ''@'') w2, ?a3))"
    unfolding ends_Chr_iff by simp
  have s5: "(p', aft') \<in> set (rep_ends is_alpha 2 None (Some CHR ''.'') ?a4)"
    unfolding rep_ends_iff using w by (intro exI [of _ w3]) auto
  have s1': "(last_char prev w1, ?a1) \<in> set (ends (Rep email_local 1 None) (prev, aft))"
    using s1 by simp
  have s3': "(last_char (Some CHR ''@'') w2, ?a3)
               \<in> set (ends (Rep email_domain 1 None) (Some CHR ''@'', ?a2))"
    using s3 by simp
  have s5': "(p', aft') \<in> set (ends (Rep is_alpha 2 None) (Some CHR ''.'', ?a4))"
    using s5 by simp
  show ?L
    unfolding email_regex_def
    by (rule ends_SeqI [OF s1'], rule ends_SeqI [OF s2], rule ends_SeqI [OF s3'],
        rule ends_SeqI [OF s4], rule s5')
qed

lemma email_classes:
  "email_domain c \<Longrightarrow> email_char c" "is_alpha c \<Longrightarrow> email_char c"
  "email_local c \<Longrightarrow> email_char c" "email_char CHR ''@''" "email_char CHR ''.''"
  by (auto simp: email_char_def email_local_def email_domain_def)

lemma is_email_chars:
  assumes "is_email w"
  shows "w \<noteq> []" and "list_all email_char w" and "CHR ''@'' \<in> set w"
  using assms by (auto simp: is_email_def list_all_iff email_classes)

lemma ends_email_starts: "ends email_regex (prev, t) \<noteq> [] \<longleftrightarrow> starts_email t"
proof
  assume "ends email_regex (prev, t) \<noteq> []"
  then obtain p' aft' where "(p', aft') \<in> set (ends email_regex (prev, t))"
    by (cases "ends email_regex (prev, t)") auto
  then obtain w1 w2 w3 where w: "t = w1 @ CHR ''@'' # w2 @ CHR ''.'' # w3 @ aft'"
    "w1 \<noteq> []" "list_all email_local w1" "w2 \<noteq> []" "list_all email_domain w2"
    "2 \<le> length w3" "list_all is_alpha w3"
    unfolding ends_email_iff by blast
  then have "is_email (w1 @ CHR ''@'' # w2 @ CHR ''.'' # w3)"
    unfolding is_email_def by blast
  moreover from w(1) have "prefix (w1 @ CHR ''@'' # w2 @ CHR ''.'' # w3) t"
    by (simp add: prefix_def)
  ultimately show "starts_email t"
    unfolding starts_email_def by blast
next
  assume "starts_email t"
  then obtain w aft' where "is_email w" "t = w @ aft'"
    by (auto simp: starts_email_def prefix_def)
  then obtain w1 w2 w3 where "t = w1 @ CHR ''@'' # w2 @ CHR ''.'' # w3 @ aft'"
    "w1 \<noteq> []" "list_all email_local w1" "w2 \<noteq> []" "list_all email_domain w2"
    "2 \<le> length w3" "list_all is_alpha w3"
    by (auto simp: is_email_def)
  then have "(last_char (Some CHR ''.'') w3, aft') \<in> set (ends email_regex (prev, t))"
    unfolding ends_email_iff by blast
  then show "ends email_regex (prev, t) \<noteq> []" by auto
qed

lemma ends_email_shorter:
  assumes "(p', aft') \<in> set (ends email_regex (prev, aft))"
  shows "\<exists>w. aft = w @ aft' \<and> w \<noteq> []"
proof -
  from assms obtain w1 w2 w3 where "aft = w1 @ CHR ''@'' # w2 @ CHR ''.'' # w3 @ aft'"
    unfolding ends_email_iff by blast
  then have "aft = (w1 @ CHR ''@'' # w2 @ CHR ''.'' # w3) @ aft'
             \<and> w1 @ CHR ''@'' # w2 @ CHR ''.'' # w3 \<noteq> []"
    by simp
  then show ?thesis by blast
qed

lemma sub_loop_no_match:
  assumes "\<not> starts_email aft"
  shows "sub_loop email_regex f m prev aft =
           (case aft of [] \<Rightarrow> [] | c # cs \<Rightarrow> c # sub_loop email_regex f False (Some c) cs)"
proof -
  from assms have "ends email_regex (prev, aft) = []"
    using ends_email_starts by blast
  then show ?thesis
    by (subst sub_loop.simps) simp
qed

lemma sub_loop_match:
  assumes "starts_email aft"
  shows "\<exists>p' aft' w. aft = w @ aft' \<and> w \<noteq> [] \<and>
           sub_loop email_regex f False prev aft = f w @ sub_loop email_regex f False p' aft'"
proof -
  from assms have "ends email_regex (prev, aft) \<noteq> []"
    using ends_email_starts by blast
  then obtain p' aft' es where es: "ends email_regex (prev, aft) = (p', aft') # es"
    by (cases "ends email_regex (prev, aft)") auto
  then have "(p', aft') \<in> set (ends email_regex (prev, aft))" by simp
  from ends_email_shorter [OF this] obtain w where w: "aft = w @ aft'" "w \<noteq> []" by blast
  then have "length aft' < length aft" "take (length aft - length aft') aft = w"
    by simp_all
  with es have "sub_loop email_regex f False prev aft = f w @ sub_loop email_regex f False p' aft'"
    by (subst sub_loop.simps) simp
  with w show ?thesis by blast
qed

lemma sub_loop_prefix:
  assumes tok: "tok \<noteq> []" "\<not> email_char (hd tok)"
  shows "list_all email_char w \<Longrightarrow> prefix w (sub_loop email_regex (\<lambda>_. tok) False prev aft)
         \<Longrightarrow> prefix w aft"
proof (induction "length aft" arbitrary: aft prev w rule: less_induct)
  case less
  show ?case
  proof (cases "starts_email aft")
    case True
    from sub_loop_match [OF this, of "\<lambda>_. tok" prev] obtain rest where
      "sub_loop email_regex (\<lambda>_. tok) False prev aft = tok @ rest" by blast
    with less.prems(2) have pre: "prefix w (tok @ rest)" by simp
    have "w = []"
    proof (cases w)
      case (Cons a w')
      with pre tok(1) have "a = hd tok"
        by (cases tok) auto
      with Cons less.prems(1) tok(2) show ?thesis by simp
    qed simp
    then show ?thesis by simp
  next
    case False
    note nm = sub_loop_no_match [OF False, of "\<lambda>_. tok" False prev]
    show ?thesis
    proof (cases aft)
      case Nil
      with nm less.prems(2) show ?thesis by simp
    next
      case (Cons c cs)
      with nm have s: "sub_loop email_regex (\<lambda>_. tok) False prev aft
                         = c # sub_loop email_regex (\<lambda>_. tok) False (Some c) cs"
        by simp
      show ?thesis
      proof (cases w)
        case Nil
        then show ?thesis by simp
      next
        case (Cons a w')
        with s less.prems have "a = c" "list_all email_char w'"
          "prefix w' (sub_loop email_regex (\<lambda>_. tok) False (Some c) cs)"
          by simp_all
        moreover have "length cs < length aft"
          using \<open>aft = c # cs\<close> by simp
        ultimately have "prefix w' cs"
          using less.hyps by blast
        with \<open>a = c\<close> Cons \<open>aft = c # cs\<close> show ?thesis by simp
      qed
    qed
  qed
qed

lemma no_email_Nil: "no_email []"
  using is_email_chars(1) by (auto simp: no_email_def starts_email_def)

lemma no_email_Cons: "no_email (c # t) \<longleftrightarrow> \<not> starts_email (c # t) \<and> no_email t"
proof
  assume a: "no_email (c # t)"
  have "\<not> starts_email (c # t)"
    using a unfolding no_email_def by (metis append_Nil)
  moreover have "no_email t"
    using a unfolding no_email_def by (metis append_Cons)
  ultimately show "\<not> starts_email (c # t) \<and> no_email t" by blast
next
  assume a: "\<not> starts_email (c # t) \<and> no_email t"
  show "no_email (c # t)"
    unfolding no_email_def
  proof (intro allI impI)
    fix u v
    assume uv: "c # t = u @ v"
    show "\<not> starts_email v"
    proof (cases u)
      case Nil
      with uv a show ?thesis by simp
    next
      case (Cons d u')
      with uv have "t = u' @ v" by simp
      with a show ?thesis by (auto simp: no_email_def)
    qed
  qed
qed

lemma no_email_token:
  assumes tok: "\<not> email_char (last tok)" "CHR ''@'' \<notin> set tok"
    and t: "no_email t"
  shows "suffix s tok \<Longrightarrow> no_email (s @ t)"
proof (induction s)
  case Nil
  with t show ?case by simp
next
  case (Cons c s)
  then have "suffix s tok"
    by (meson suffix_ConsD)
  then have tail: "no_email (s @ t)" by (rule Cons.IH)
  have "\<not> starts_email ((c # s) @ t)"
  proof
    assume "starts_email ((c # s) @ t)"
    then obtain w where w: "is_email w" "prefix w ((c # s) @ t)"
      by (auto simp: starts_email_def)
    from w(2) consider "prefix w (c # s)" | us where "w = (c # s) @ us"
      unfolding prefix_append by blast
    then show False
    proof cases
      case 1
      then have "set w \<subseteq> set (c # s)" by (rule set_mono_prefix)
      moreover from Cons.prems have "set (c # s) \<subseteq> set tok" by (rule set_mono_suffix)
      ultimately show False
        using is_email_chars(3) [OF w(1)] tok(2) by blast
    next
      case 2
      from Cons.prems have "last tok = last (c # s)"
        by (auto simp: suffix_def)
      then have "last tok \<in> set w"
        using 2 by (metis last_in_set list.distinct(1) set_append UnI1)
      with is_email_chars(2) [OF w(1)] tok(1) show False
        by (auto simp: list_all_iff)
    qed
  qed
  with tail show ?case by (simp add: no_email_Cons)
qed

lemma sub_loop_no_email:
  assumes tok: "tok \<noteq> []" "\<not> email_char (hd tok)" "\<not> email_char (last tok)"
    "CHR ''@'' \<notin> set tok"
  shows "no_email (sub_loop email_regex (\<lambda>_. tok) False prev aft)"
proof (induction "length aft" arbitrary: aft prev rule: less_induct)
  case less
  show ?case
  proof (cases "starts_email aft")
    case True
    from sub_loop_match [OF this, of "\<lambda>_. tok" prev] obtain p' aft' w where
      m: "aft = w @ aft'" "w \<noteq> []"
      "sub_loop email_regex (\<lambda>_. tok) False prev aft
         = tok @ sub_loop email_regex (\<lambda>_. tok) False p' aft'"
      by blast
    then have "length aft' < length aft" by simp
    then have "no_email (sub_loop email_regex (\<lambda>_. tok) False p' aft')"
      by (rule less.hyps)
    moreover have "suffix tok tok"
      unfolding suffix_def by (rule exI [of _ "[]"]) simp
    ultimately have "no_email (tok @ sub_loop email_regex (\<lambda>_. tok) False p' aft')"
      using tok(3,4) by (intro no_email_token)
    with m(3) show ?thesis by simp
  next
    case False
    note nm = sub_loop_no_match [OF False, of "\<lambda>_. tok" False prev]
    show ?thesis
    proof (cases aft)
      case Nil
      with nm show ?thesis by (simp add: no_email_Nil)
    next
      case (Cons c cs)
      let ?rest = "sub_loop email_regex (\<lambda>_. tok) False (Some c) cs"
      from Cons nm have s: "sub_loop email_regex (\<lambda>_. tok) False prev aft = c # ?rest"
        by simp
      have "length cs < length aft" using Cons by simp
      then have rest: "no_email ?rest" by (rule less.hyps)
      have "\<not> starts_email (c # ?rest)"
      proof
        assume "starts_email (c # ?rest)"
        then obtain w where w: "is_email w" "prefix w (c # ?rest)"
          by (auto simp: starts_email_def)
        with is_email_chars [OF w(1)] obtain w' where w': "w = c # w'" "list_all email_char w'"
          "prefix w' ?rest"
          by (cases w) auto
        from sub_loop_prefix [OF tok(1,2) w'(2,3)] have "prefix w' cs" .
        with w' Cons have "prefix w aft" by simp
        with w(1) False show False by (auto simp: starts_email_def)
      qed
      with rest s show ?thesis by (simp add: no_email_Cons)
    qed
  qed
qed

lemma sub_loop_fixed: "no_email t \<Longrightarrow> sub_loop email_regex f m prev t = t"
proof (induction t arbitrary: prev m)
  case Nil
  then have "\<not> starts_email []" by (auto simp: no_email_def)
  from sub_loop_no_match [OF this] show ?case by simp
next
  case (Cons c cs)
  then have "\<not> starts_email (c # cs)" "no_email cs"
    by (simp_all add: no_email_Cons)
  with sub_loop_no_match [OF this(1), of f m prev] Cons.IH show ?case by simp
qed

text \<open>
  Claim C9, as the code has it. For a mask token that is not empty, has no backslash and
  no \<^verbatim>\<open>@\<close>, and whose first and last characters cannot occur in an email match (the
  default token \<^verbatim>\<open>[EMAIL_MASKED]\<close> is one), the substitution is idempotent on every
  text: substituting in the masked text gives the masked text again, and the policy
  evaluated on the masked text returns PASS.
\<close>

theorem pii_redaction_idempotent:
  assumes "tok \<noteq> []" and "\<not> email_char (hd tok)" and "\<not> email_char (last tok)"
    and "CHR ''@'' \<notin> set tok" and "bs \<notin> set tok"
  shows "\<exists>masked. re_sub email_regex tok text = Inr masked
           \<and> re_sub email_regex tok masked = Inr masked
           \<and> evaluate_prompt (PII_Scrubber tok) masked =
               Inr [''status'' \<mapsto> ''PASS'', ''details'' \<mapsto> ''No PII found.'']"
proof -
  let ?f = "expand_template (map (\<lambda>c. TLit [c]) tok)"
  have f: "?f = (\<lambda>_. tok)"
    by (rule ext) (rule expand_template_literal)
  have sub: "re_sub email_regex tok t = Inr (sub_loop email_regex (\<lambda>_. tok) False None t)" for t
    using assms(5) by (simp add: re_sub_def parse_template_literal f)
  let ?masked = "sub_loop email_regex (\<lambda>_. tok) False None text"
  have "no_email ?masked"
    using assms(1-4) by (rule sub_loop_no_email)
  then have "sub_loop email_regex (\<lambda>_. tok) False None ?masked = ?masked"
    by (rule sub_loop_fixed)
  then have again: "re_sub email_regex tok ?masked = Inr ?masked"
    by (simp add: sub)
  then have "evaluate_prompt (PII_Scrubber tok) ?masked =
               Inr [''status'' \<mapsto> ''PASS'', ''details'' \<mapsto> ''No PII found.'']"
    by (simp add: PII_Scrubber_evaluate_prompt_def)
  with sub [of "text"] again show ?thesis by blast
qed

theorem pii_redaction_idempotent_witness:
  "re_sub email_regex ''[EMAIL_MASKED]'' ''to a@b.co, c@d.org'' = Inr ''to [EMAIL_MASKED], [EMAIL_MASKED]''
 \<and> re_sub email_regex ''[EMAIL_MASKED]'' ''to [EMAIL_MASKED], [EMAIL_MASKED]''
     = Inr ''to [EMAIL_MASKED], [EMAIL_MASKED]''
 \<and> evaluate_prompt (PII_Scrubber ''[EMAIL_MASKED]'') ''to [EMAIL_MASKED], [EMAIL_MASKED]'' =
     Inr [''status'' \<mapsto> ''PASS'', ''details'' \<mapsto> ''No PII found.'']"
proof -
  have h: "''[EMAIL_MASKED]'' \<noteq> []" "\<not> email_char (hd ''[EMAIL_MASKED]'')"
    "\<not> email_char (last ''[EMAIL_MASKED]'')" "CHR ''@'' \<notin> set ''[EMAIL_MASKED]''"
    "bs \<notin> set ''[EMAIL_MASKED]''"
    by code_simp+
  have e: "re_sub email_regex ''[EMAIL_MASKED]'' ''to a@b.co, c@d.org''
             = Inr ''to [EMAIL_MASKED], [EMAIL_MASKED]''"
    by code_simp
  from pii_redaction_idempotent [OF h, of "''to a@b.co, c@d.org''"] e show ?thesis
    by auto
qed

text \<open>
  The claim as written fails for other mask tokens: with the token \<^verbatim>\<open>a\<close> the text
  \<^verbatim>\<open>b@c.de@f.gh\<close> is masked to \<^verbatim>\<open>a@f.gh\<close>, which is an email address again; the
  second substitution gives \<^verbatim>\<open>a\<close>, and the policy on its own output returns MASK.
\<close>

theorem pii_redaction_token_counterexample:
  "re_sub email_regex ''a'' ''b@c.de@f.gh'' = Inr ''a@f.gh''
 \<and> re_sub email_regex ''a'' ''a@f.gh'' = Inr ''a''
 \<and> evaluate_prompt (PII_Scrubber ''a'') ''a@f.gh'' =
     Inr [''status'' \<mapsto> ''MASK'', ''details'' \<mapsto> ''PII (email) masked.'',
          ''processed_prompt'' \<mapsto> ''a'']"
proof -
  have a: "re_sub email_regex ''a'' ''b@c.de@f.gh'' = Inr ''a@f.gh''" by code_simp
  have b: "re_sub email_regex ''a'' ''a@f.gh'' = Inr ''a''" by code_simp
  from a b show ?thesis by (simp add: PII_Scrubber_evaluate_prompt_def)
qed

end
